theory Spec2Isabelle
  imports Main
begin

section \<open>Strings\<close>

text \<open>
  A JavaScript string is a sequence of code units; it is modelled as a \<open>string\<close>, whose
  characters are the code units \<open>0x00\<close> to \<open>0xFF\<close> (ASCII and Latin-1).  The three string
  primitives the utilities call are written out for that range.
\<close>

text \<open>\<open>String.prototype.trim\<close>: TAB, LF, VT, FF, CR, SP and NBSP are the white space and
  line terminator code units below \<open>0x100\<close>.\<close>

definition isWhiteSpace :: "char \<Rightarrow> bool" where
  "isWhiteSpace c =
     (c \<in> set [CHR 0x09, CHR 0x0A, CHR 0x0B, CHR 0x0C, CHR 0x0D, CHR 0x20, CHR 0xA0])"

definition trim :: "string \<Rightarrow> string" where
  "trim s = rev (dropWhile isWhiteSpace (rev (dropWhile isWhiteSpace s)))"

text \<open>\<open>String.prototype.toLowerCase\<close>: \<open>A\<close> to \<open>Z\<close> and the Latin-1 capitals \<open>0xC0\<close> to
  \<open>0xDE\<close> (without the multiplication sign \<open>0xD7\<close>) move up by 32.\<close>

definition lowerChar :: "char \<Rightarrow> char" where
  "lowerChar c =
     (let n = (of_char c :: nat)
      in if (65 \<le> n \<and> n \<le> 90) \<or> (192 \<le> n \<and> n \<le> 222 \<and> n \<noteq> 215)
         then char_of (n + 32) else c)"

definition toLowerCase :: "string \<Rightarrow> string" where
  "toLowerCase s = map lowerChar s"

text \<open>Template literals print a count in decimal.\<close>

definition digit :: "nat \<Rightarrow> char" where
  "digit d = char_of (48 + d)"

fun show_nat :: "nat \<Rightarrow> string" where
  "show_nat n = (if n < 10 then [digit n] else show_nat (n div 10) @ [digit (n mod 10)])"

declare show_nat.simps [simp del]

text \<open>\<open>Array.prototype.join\<close> on an array of strings.\<close>

fun js_join :: "string \<Rightarrow> string list \<Rightarrow> string" where
  "js_join sep [] = []"
| "js_join sep [x] = x"
| "js_join sep (x # y # ys) = x @ sep @ js_join sep (y # ys)"

section \<open>The insertion-ordered Set\<close>

text \<open>
  A JavaScript \<open>Set\<close> keeps its members in insertion order and ignores the insertion of a
  member it already has; it is modelled by the list of its members in that order.
  \<open>new_Set xs\<close> is \<open>new Set(xs)\<close>, and spreading the set into an array yields that list.
\<close>

definition set_has :: "'a list \<Rightarrow> 'a \<Rightarrow> bool" where
  "set_has seen x = (x \<in> set seen)"

definition set_add :: "'a list \<Rightarrow> 'a \<Rightarrow> 'a list" where
  "set_add seen x = (if set_has seen x then seen else seen @ [x])"

definition new_Set :: "'a list \<Rightarrow> 'a list" where
  "new_Set xs = foldl set_add [] xs"

section \<open>Regular expressions\<close>

text \<open>
  Both patterns of \<open>emailUtils.ts\<close> are sequences of atoms: an assertion (\<open>^\<close>, \<open>$\<close>), a
  literal character, or a character class under a greedy quantifier \<open>{n,}\<close> (\<open>+\<close> is
  \<open>{1,}\<close>).  A class is the list of its ranges and single characters.
\<close>

datatype class_item = Range char char | Single char

fun in_item :: "class_item \<Rightarrow> char \<Rightarrow> bool" where
  "in_item (Range lo hi) c =
     ((of_char lo :: nat) \<le> of_char c \<and> (of_char c :: nat) \<le> of_char hi)"
| "in_item (Single x) c = (c = x)"

definition in_class :: "class_item list \<Rightarrow> char \<Rightarrow> bool" where
  "in_class cls c = list_ex (\<lambda>i. in_item i c) cls"

text \<open>
  Under the \<open>i\<close> flag a character matches when its canonical form (its upper case) is the
  canonical form of a pattern character.  A code unit from \<open>0x80\<close> on never canonicalizes
  to an ASCII one, so for patterns written in ASCII, as both are, only the ASCII letters
  change.
\<close>

definition asciiUpper :: "char \<Rightarrow> char" where
  "asciiUpper c =
     (let n = (of_char c :: nat) in if 97 \<le> n \<and> n \<le> 122 then char_of (n - 32) else c)"

definition asciiLower :: "char \<Rightarrow> char" where
  "asciiLower c =
     (let n = (of_char c :: nat) in if 65 \<le> n \<and> n \<le> 90 then char_of (n + 32) else c)"

definition canonicalize :: "bool \<Rightarrow> char \<Rightarrow> char" where
  "canonicalize ic c = (if ic then asciiUpper c else c)"

definition class_matches :: "bool \<Rightarrow> class_item list \<Rightarrow> char \<Rightarrow> bool" where
  "class_matches ic cls c =
     (in_class cls c \<or> (ic \<and> (in_class cls (asciiUpper c) \<or> in_class cls (asciiLower c))))"

datatype atom = Bol | Eol | Lit char | Rep "class_item list" nat

record regex =
  atoms :: "atom list"
  ignoreCase :: bool
  global :: bool

text \<open>Backtracking: the first alternative that lets the rest of the pattern match wins.\<close>

fun first_some :: "('a \<Rightarrow> 'b option) \<Rightarrow> 'a list \<Rightarrow> 'b option" where
  "first_some f [] = None"
| "first_some f (x # xs) = (case f x of Some y \<Rightarrow> Some y | None \<Rightarrow> first_some f xs)"

text \<open>
  \<open>m_atoms as ic b s\<close> matches the atoms \<open>as\<close> at the front of the remaining input \<open>s\<close>;
  \<open>b\<close> tells whether \<open>s\<close> is the whole input (so that \<open>^\<close> holds), and the result is the
  input left after the match.  A quantified class first takes the longest run of class
  characters and gives them back one at a time, down to its minimum.
\<close>

primrec m_atoms :: "atom list \<Rightarrow> bool \<Rightarrow> bool \<Rightarrow> string \<Rightarrow> string option" where
  "m_atoms [] ic b s = Some s"
| "m_atoms (a # as) ic b s =
     (case a of
        Bol \<Rightarrow> if b then m_atoms as ic b s else None
      | Eol \<Rightarrow> if s = [] then m_atoms as ic b s else None
      | Lit c \<Rightarrow>
          (case s of
             [] \<Rightarrow> None
           | x # xs \<Rightarrow>
               if canonicalize ic x = canonicalize ic c then m_atoms as ic False xs else None)
      | Rep cls n \<Rightarrow>
          first_some (\<lambda>k. m_atoms as ic (b \<and> k = 0) (drop k s))
            (rev [n ..< Suc (length (takeWhile (class_matches ic cls) s))]))"

text \<open>
  \<open>RegExp.prototype.exec\<close> from index \<open>i\<close>: the first index from \<open>i\<close> on at which the pattern
  matches, with the index where that match ends.
\<close>

function exec_from :: "regex \<Rightarrow> string \<Rightarrow> nat \<Rightarrow> (nat \<times> nat) option" where
  "exec_from r inp i =
     (if length inp < i then None
      else case m_atoms (atoms r) (ignoreCase r) (i = 0) (drop i inp) of
             Some rest \<Rightarrow> Some (i, length inp - length rest)
           | None \<Rightarrow> exec_from r inp (Suc i))"
  by pat_completeness auto
termination
  by (relation "measure (\<lambda>(r, inp, i). Suc (length inp) - i)") auto

declare exec_from.simps [simp del]

text \<open>\<open>test\<close> of a pattern without the \<open>g\<close> flag searches from index 0.\<close>

definition regex_test :: "regex \<Rightarrow> string \<Rightarrow> bool" where
  "regex_test r s = (exec_from r s 0 \<noteq> None)"

lemma first_some_SomeD:
  "first_some f xs = Some y \<Longrightarrow> \<exists>x. f x = Some y"
  by (induction xs) (auto split: option.splits)

lemma m_atoms_length:
  "m_atoms as ic b s = Some rest \<Longrightarrow> length rest \<le> length s"
proof (induction as arbitrary: b s)
  case Nil
  then show ?case by simp
next
  case (Cons a as)
  show ?case
  proof (cases a)
    case Bol
    with Cons.prems have "m_atoms as ic b s = Some rest"
      by (simp split: if_splits)
    from Cons.IH [OF this] show ?thesis .
  next
    case Eol
    with Cons.prems have "m_atoms as ic b s = Some rest"
      by (simp split: if_splits)
    from Cons.IH [OF this] show ?thesis .
  next
    case (Lit c)
    with Cons.prems obtain x xs where s: "s = x # xs"
      and m: "m_atoms as ic False xs = Some rest"
      by (auto split: list.splits if_splits)
    from Cons.IH [OF m] s show ?thesis by simp
  next
    case (Rep cls n)
    with Cons.prems obtain k where "m_atoms as ic (b \<and> k = 0) (drop k s) = Some rest"
      by (auto dest: first_some_SomeD)
    from Cons.IH [OF this] show ?thesis by simp
  qed
qed

lemma exec_from_bounds:
  "exec_from r inp i = Some (s, e) \<Longrightarrow> i \<le> s \<and> s \<le> e \<and> e \<le> length inp"
proof (induction r inp i rule: exec_from.induct)
  case (1 r inp i)
  show ?case
  proof (cases "length inp < i")
    case True
    with "1.prems" show ?thesis by (simp add: exec_from.simps)
  next
    case False
    show ?thesis
    proof (cases "m_atoms (atoms r) (ignoreCase r) (i = 0) (drop i inp)")
      case None
      with False "1.prems" have "exec_from r inp (Suc i) = Some (s, e)"
        by (simp add: exec_from.simps [of r inp i])
      from "1.IH" [OF False None this] show ?thesis by simp
    next
      case (Some rest)
      from m_atoms_length [OF Some] have "length rest \<le> length inp - i" by simp
      with False Some "1.prems" show ?thesis
        by (auto simp: exec_from.simps [of r inp i])
    qed
  qed
qed

text \<open>
  \<open>String.prototype.match\<close> with a \<open>g\<close> pattern: \<open>exec\<close> is repeated from \<open>lastIndex\<close>,
  which moves to the end of each match (one further after an empty match); the matched
  substrings are collected, and the result is \<open>null\<close> when there is none.
\<close>

function match_loop :: "regex \<Rightarrow> string \<Rightarrow> nat \<Rightarrow> string list" where
  "match_loop r inp lastIndex =
     (case exec_from r inp lastIndex of
        None \<Rightarrow> []
      | Some (s, e) \<Rightarrow>
          take (e - s) (drop s inp) # match_loop r inp (if e = s then Suc e else e))"
  by pat_completeness auto
termination
proof (relation "measure (\<lambda>(r, inp, lastIndex). Suc (length inp) - lastIndex)")
  show "wf (measure (\<lambda>(r, inp, lastIndex). Suc (length inp) - lastIndex))"
    by simp
next
  fix r :: regex and inp :: string and lastIndex :: nat and x2 :: "nat \<times> nat" and s e :: nat
  assume "exec_from r inp lastIndex = Some x2" and "(s, e) = x2"
  then have "exec_from r inp lastIndex = Some (s, e)" by simp
  from exec_from_bounds [OF this]
  show "((r, inp, if e = s then Suc e else e), r, inp, lastIndex)
          \<in> measure (\<lambda>(r, inp, lastIndex). Suc (length inp) - lastIndex)"
    by auto
qed

declare match_loop.simps [simp del]

definition js_match :: "regex \<Rightarrow> string \<Rightarrow> string list option" where
  "js_match r inp = (case match_loop r inp 0 of [] \<Rightarrow> None | m # ms \<Rightarrow> Some (m # ms))"

section \<open>emailUtils.ts\<close>

definition localClass :: "class_item list" where
  "localClass =
     [Range CHR ''a'' CHR ''z'', Range CHR ''A'' CHR ''Z'', Range CHR ''0'' CHR ''9'',
      Single CHR ''.'', Single CHR ''_'', Single CHR ''%'', Single CHR ''+'', Single CHR ''-'']"

definition domainClass :: "class_item list" where
  "domainClass =
     [Range CHR ''a'' CHR ''z'', Range CHR ''A'' CHR ''Z'', Range CHR ''0'' CHR ''9'',
      Single CHR ''.'', Single CHR ''-'']"

definition alphaClass :: "class_item list" where
  "alphaClass = [Range CHR ''a'' CHR ''z'', Range CHR ''A'' CHR ''Z'']"

text \<open>\<open>/([a-zA-Z0-9._%+-]+@[a-zA-Z0-9.-]+\.[a-zA-Z]{2,})/gi\<close>; the group spans the whole
  pattern and is not read.\<close>

definition EMAIL_REGEX :: regex where
  "EMAIL_REGEX =
     \<lparr> atoms = [Rep localClass 1, Lit CHR ''@'', Rep domainClass 1, Lit CHR ''.'',
                Rep alphaClass 2],
       ignoreCase = True, global = True \<rparr>"

text \<open>\<open>/^[a-zA-Z0-9._%+-]+@[a-zA-Z0-9.-]+\.[a-zA-Z]{2,}$/\<close>\<close>

definition STRICT_EMAIL_REGEX :: regex where
  "STRICT_EMAIL_REGEX =
     \<lparr> atoms = [Bol, Rep localClass 1, Lit CHR ''@'', Rep domainClass 1, Lit CHR ''.'',
                Rep alphaClass 2, Eol],
       ignoreCase = False, global = False \<rparr>"

text \<open>
  The values a caller can pass where a string is declared.  Numbers are integers here:
  only their truthiness and their \<open>typeof\<close> are read.
\<close>

datatype js_value =
  JUndefined | JNull | JBool bool | JNumber int | JString string | JObject

fun truthy :: "js_value \<Rightarrow> bool" where
  "truthy JUndefined = False"
| "truthy JNull = False"
| "truthy (JBool b) = b"
| "truthy (JNumber n) = (n \<noteq> 0)"
| "truthy (JString s) = (s \<noteq> [])"
| "truthy JObject = True"

fun typeof :: "js_value \<Rightarrow> string" where
  "typeof JUndefined = ''undefined''"
| "typeof JNull = ''object''"
| "typeof (JBool b) = ''boolean''"
| "typeof (JNumber n) = ''number''"
| "typeof (JString s) = ''string''"
| "typeof JObject = ''object''"

datatype error = Error string

text \<open>
  A caller's \<open>filterPattern\<close> is any \<open>RegExp\<close> object: what its \<open>test\<close> answers on a string
  from a given \<open>lastIndex\<close>, with the \<open>lastIndex\<close> it leaves, and the \<open>lastIndex\<close> it has when
  it is passed in.
\<close>

record RegExp =
  test :: "nat \<Rightarrow> string \<Rightarrow> bool \<times> nat"
  lastIndex :: nat

record ScrapingOptions =
  includeDuplicates :: bool
  filterPattern :: "RegExp option"

record EmailScrapingResult =
  emails :: "string list"

definition default_options :: ScrapingOptions where
  "default_options = \<lparr> includeDuplicates = False, filterPattern = None \<rparr>"

text \<open>\<open>emails.filter((email) => options.filterPattern!.test(email))\<close>, the pattern's
  \<open>lastIndex\<close> carried from one call of \<open>test\<close> to the next.\<close>

fun filter_test :: "(nat \<Rightarrow> string \<Rightarrow> bool \<times> nat) \<Rightarrow> nat \<Rightarrow> string list \<Rightarrow> string list" where
  "filter_test t li [] = []"
| "filter_test t li (e # es) =
     (case t li e of
        (True, li') \<Rightarrow> e # filter_test t li' es
      | (False, li') \<Rightarrow> filter_test t li' es)"

text \<open>The body of the \<open>try\<close> block of \<open>extractEmailsFromHTML\<close>; \<open>Inl\<close> is a throw.\<close>

definition extract_try :: "js_value \<Rightarrow> ScrapingOptions \<Rightarrow> error + EmailScrapingResult" where
  "extract_try htmlContent options =
     (if \<not> truthy htmlContent \<or> typeof htmlContent \<noteq> ''string''
      then Inl (Error ''Invalid HTML content provided'')
      else case htmlContent of
        JString content \<Rightarrow>
          (case js_match EMAIL_REGEX content of
             None \<Rightarrow> Inr \<lparr> emails = [] \<rparr>
           | Some matches \<Rightarrow>
               let emails1 = filter (regex_test STRICT_EMAIL_REGEX)
                               (map (\<lambda>email. toLowerCase (trim email)) matches);
                   emails2 = (if \<not> includeDuplicates options then new_Set emails1 else emails1);
                   emails3 = (case filterPattern options of
                                Some p \<Rightarrow> filter_test (test p) (lastIndex p) emails2
                              | None \<Rightarrow> emails2)
               in Inr \<lparr> emails = emails3 \<rparr>)
      | _ \<Rightarrow> Inl (Error ''Invalid HTML content provided''))"

text \<open>\<open>extractEmailsFromHTML\<close>: the \<open>catch\<close> turns every throw into the empty result, so
  the promise always resolves.\<close>

definition extractEmailsFromHTML :: "js_value \<Rightarrow> ScrapingOptions \<Rightarrow> EmailScrapingResult" where
  "extractEmailsFromHTML htmlContent options =
     (case extract_try htmlContent options of
        Inl err \<Rightarrow> \<lparr> emails = [] \<rparr>
      | Inr result \<Rightarrow> result)"

definition page_content :: string where
  "page_content =
     ''Contact: Jane@Example.com, jane@example.com, not-an-email, bob@sub.example.co.uk''"

text \<open>\<open>isValidEmail\<close>: the guard answers \<open>false\<close> for the empty string and for a value that is
  not a string; otherwise the trimmed string is tested.\<close>

definition isValidEmail :: "js_value \<Rightarrow> bool" where
  "isValidEmail email =
     (if \<not> truthy email \<or> typeof email \<noteq> ''string'' then False
      else case email of
        JString s \<Rightarrow> regex_test STRICT_EMAIL_REGEX (trim s)
      | _ \<Rightarrow> False)"

text \<open>An argument declared \<open>string[]\<close>: an array of strings, or whatever else a caller
  passes.\<close>

datatype emails_arg = Array "string list" | NotArray js_value

text \<open>The callback of \<open>emails.filter\<close> in \<open>removeDuplicateEmails\<close>, with the set \<open>seen\<close> it
  closes over.\<close>

fun filter_seen :: "string list \<Rightarrow> string list \<Rightarrow> string list" where
  "filter_seen seen [] = []"
| "filter_seen seen (email # rest) =
     (let normalized = trim (toLowerCase email)
      in if set_has seen normalized then filter_seen seen rest
         else email # filter_seen (set_add seen normalized) rest)"

fun removeDuplicateEmails :: "emails_arg \<Rightarrow> string list" where
  "removeDuplicateEmails (NotArray v) = []"
| "removeDuplicateEmails (Array es) = filter_seen [] es"

section \<open>clipboardUtils.ts\<close>

record ClipboardOptions =
  separator :: string
  includeHeaders :: bool

text \<open>\<open>Partial<ClipboardOptions>\<close>: \<open>None\<close> is a property left out.\<close>

record PartialClipboardOptions =
  separator_opt :: "string option"
  includeHeaders_opt :: "bool option"

definition DEFAULT_CLIPBOARD_OPTIONS :: ClipboardOptions where
  "DEFAULT_CLIPBOARD_OPTIONS = \<lparr> separator = '','', includeHeaders = False \<rparr>"

text \<open>\<open>{ ...DEFAULT_CLIPBOARD_OPTIONS, ...options }\<close>\<close>

definition spread_options :: "ClipboardOptions \<Rightarrow> PartialClipboardOptions \<Rightarrow> ClipboardOptions" where
  "spread_options d options =
     \<lparr> separator = (case separator_opt options of Some sep \<Rightarrow> sep | None \<Rightarrow> separator d),
       includeHeaders =
         (case includeHeaders_opt options of Some h \<Rightarrow> h | None \<Rightarrow> includeHeaders d) \<rparr>"

definition formatEmailsForClipboard :: "emails_arg \<Rightarrow> PartialClipboardOptions \<Rightarrow> string" where
  "formatEmailsForClipboard arg options =
     (case arg of
        NotArray v \<Rightarrow> []
      | Array es \<Rightarrow>
          if length es = 0 then []
          else
            let config = spread_options DEFAULT_CLIPBOARD_OPTIONS options;
                uniqueEmails = new_Set es;
                result0 = [];
                result1 = (if includeHeaders config
                           then result0 @ ''Emails found ('' @ show_nat (length uniqueEmails)
                                  @ ''):'' @ [CHR 0x0A]
                           else result0)
            in result1 @ js_join (separator config) uniqueEmails)"

text \<open>
  What the clipboard calls depend on outside the program: whether the Clipboard API is
  there in a secure context, whether its \<open>writeText\<close> resolves (\<open>True\<close>) or rejects, and
  what the fallback's \<open>execCommand('copy')\<close> answers (\<open>None\<close>: the fallback throws).
  Each copy function returns its success flag and the text it has put on the clipboard,
  if any.
\<close>

record clipboard_env =
  clipboardAPI :: bool
  writeText :: "string \<Rightarrow> bool"
  execCommandCopy :: "string \<Rightarrow> bool option"

definition copyToClipboardFallback :: "clipboard_env \<Rightarrow> string \<Rightarrow> bool \<times> string option" where
  "copyToClipboardFallback env text =
     (case execCommandCopy env text of
        None \<Rightarrow> (False, None)
      | Some successful \<Rightarrow> (successful, if successful then Some text else None))"

definition copyToClipboard :: "clipboard_env \<Rightarrow> string \<Rightarrow> bool \<times> string option" where
  "copyToClipboard env text =
     (if text = [] then (False, None)
      else if clipboardAPI env
           then (if writeText env text then (True, Some text) else (False, None))
           else copyToClipboardFallback env text)"

record copy_result =
  success :: bool
  message :: string

definition copyEmailsToClipboard ::
  "clipboard_env \<Rightarrow> emails_arg \<Rightarrow> PartialClipboardOptions \<Rightarrow> copy_result \<times> string option" where
  "copyEmailsToClipboard env arg options =
     (case arg of
        NotArray v \<Rightarrow> (\<lparr> success = False, message = ''No emails to copy'' \<rparr>, None)
      | Array es \<Rightarrow>
          if length es = 0
          then (\<lparr> success = False, message = ''No emails to copy'' \<rparr>, None)
          else
            let formattedText = formatEmailsForClipboard arg options;
                (ok, written) = copyToClipboard env formattedText
            in if ok
               then let count = length es
                    in (\<lparr> success = True,
                          message = show_nat count @ '' email''
                                      @ (if count = 1 then [] else ''s'')
                                      @ '' copied to clipboard!'' \<rparr>, written)
               else (\<lparr> success = False,
                       message = ''Failed to copy to clipboard. Please try again.'' \<rparr>,
                     written))"

section \<open>The specification's vocabulary\<close>

text \<open>
  The strict grammar in the specification's words: exactly one \<open>@\<close>; before it a local
  part of letters, digits and \<open>. _ % + -\<close>; after it a domain of letters, digits, \<open>.\<close> and
  \<open>-\<close> that has a dot; the final label, after the last dot, is two or more letters.  The
  local part and what stands before the last dot are not empty.
\<close>

definition isLetter :: "char \<Rightarrow> bool" where
  "isLetter c =
     (let n = (of_char c :: nat) in (97 \<le> n \<and> n \<le> 122) \<or> (65 \<le> n \<and> n \<le> 90))"

definition isDigit :: "char \<Rightarrow> bool" where
  "isDigit c = (let n = (of_char c :: nat) in 48 \<le> n \<and> n \<le> 57)"

definition isLocalChar :: "char \<Rightarrow> bool" where
  "isLocalChar c = (isLetter c \<or> isDigit c \<or> c \<in> set ''._%+-'')"

definition isDomainChar :: "char \<Rightarrow> bool" where
  "isDomainChar c = (isLetter c \<or> isDigit c \<or> c \<in> set ''.-'')"

definition strict_grammar :: "string \<Rightarrow> bool" where
  "strict_grammar s =
     (let local = takeWhile (\<lambda>c. c \<noteq> CHR ''@'') s;
          domain = drop (Suc (length local)) s;
          label = rev (takeWhile (\<lambda>c. c \<noteq> CHR ''.'') (rev domain));
          host = take (length domain - Suc (length label)) domain
      in count_list s CHR ''@'' = 1 \<and>
         local \<noteq> [] \<and> list_all isLocalChar local \<and>
         list_all isDomainChar domain \<and> CHR ''.'' \<in> set domain \<and> host \<noteq> [] \<and>
         2 \<le> length label \<and> list_all isLetter label)"

text \<open>The first element with each key, in order: deduplication as the specification
  words it.\<close>

fun keep_first :: "('a \<Rightarrow> 'k) \<Rightarrow> 'a list \<Rightarrow> 'a list" where
  "keep_first key [] = []"
| "keep_first key (x # xs) = x # keep_first key (filter (\<lambda>y. key y \<noteq> key x) xs)"

text \<open>\<open>String.prototype.includes\<close> and \<open>String.prototype.split\<close> with a string separator,
  for reading a clipboard text back.\<close>

fun js_includes :: "string \<Rightarrow> string \<Rightarrow> bool" where
  "js_includes [] sep = (sep = [])"
| "js_includes (c # cs) sep = (take (length sep) (c # cs) = sep \<or> js_includes cs sep)"

fun split_loop :: "string \<Rightarrow> string \<Rightarrow> string \<Rightarrow> string list" where
  "split_loop sep piece [] = [piece]"
| "split_loop sep piece (c # cs) =
     (if take (length sep) (c # cs) = sep
      then piece # split_loop sep [] (drop (length sep - 1) cs)
      else split_loop sep (piece @ [c]) cs)"

definition js_split :: "string \<Rightarrow> string \<Rightarrow> string list" where
  "js_split s sep = (if sep = [] then map (\<lambda>c. [c]) s else split_loop sep [] s)"

text \<open>An environment in which the Clipboard API is there and grants every write.\<close>

definition clipboard_granted :: clipboard_env where
  "clipboard_granted =
     \<lparr> clipboardAPI = True, writeText = (\<lambda>t. True), execCommandCopy = (\<lambda>t. None) \<rparr>"

section \<open>Extraction on the sample content\<close>

lemma match_loop_page_content:
  "match_loop EMAIL_REGEX page_content 0 =
     [''Jane@Example.com'', ''jane@example.com'', ''bob@sub.example.co.uk'']"
  by code_simp

text \<open>
  C1: on the sample content with the default options (duplicates suppressed, no filter
  pattern) extraction returns the lower-cased jane address once and then the sub-domain
  address, in that order.
\<close>

theorem extract_sample_default:
  "emails (extractEmailsFromHTML (JString page_content) default_options) =
     [''jane@example.com'', ''bob@sub.example.co.uk'']"
  by code_simp

text \<open>
  C4, as stated: with \<open>includeDuplicates\<close> set, both casings of the jane address would be
  in the output.  The capitalised one is not: every match is lower-cased before it is kept.
\<close>

theorem extract_sample_duplicates_counterexample:
  "''Jane@Example.com'' \<notin>
     set (emails (extractEmailsFromHTML (JString page_content)
                    \<lparr> includeDuplicates = True, filterPattern = None \<rparr>))"
  by code_simp

text \<open>
  C4, amended: with \<open>includeDuplicates\<close> set, both occurrences of the jane address are
  kept, each in lower case, followed by the sub-domain address.
\<close>

theorem extract_sample_duplicates:
  "emails (extractEmailsFromHTML (JString page_content)
             \<lparr> includeDuplicates = True, filterPattern = None \<rparr>) =
     [''jane@example.com'', ''jane@example.com'', ''bob@sub.example.co.uk'']"
  by code_simp

section \<open>Extraction never fails\<close>

text \<open>
  C7: on a content that is not a string (\<open>undefined\<close>, \<open>null\<close>, a boolean, a number, an
  object) the guard throws inside the \<open>try\<close> block, the \<open>catch\<close> answers, and the caller
  receives the empty result, whatever the options.
\<close>

theorem extract_non_string:
  "typeof v \<noteq> ''string'' \<Longrightarrow>
     extract_try v opts = Inl (Error ''Invalid HTML content provided'') \<and>
     extractEmailsFromHTML v opts = \<lparr> emails = [] \<rparr>"
  by (simp add: extractEmailsFromHTML_def extract_try_def)

theorem extract_non_string_witness:
  "typeof JUndefined \<noteq> ''string'' \<and>
   extract_try JUndefined default_options = Inl (Error ''Invalid HTML content provided'') \<and>
   extractEmailsFromHTML JUndefined default_options = \<lparr> emails = [] \<rparr>"
  using extract_non_string [of JUndefined default_options] by simp

section \<open>Deduplication\<close>

lemma filter_seen_idem:
  "filter_seen seen (filter_seen seen xs) = filter_seen seen xs"
  by (induction xs arbitrary: seen) (auto simp: Let_def set_add_def set_has_def)

lemma filter_seen_keep_first:
  "filter_seen seen xs =
     keep_first (\<lambda>e. trim (toLowerCase e))
       (filter (\<lambda>e. trim (toLowerCase e) \<notin> set seen) xs)"
proof (induction xs arbitrary: seen)
  case Nil
  then show ?case by simp
next
  case (Cons x xs)
  show ?case
    by (auto simp: Let_def set_add_def set_has_def Cons.IH
             intro!: arg_cong [where f = "keep_first _"] filter_cong)
qed

text \<open>
  C3: on \<open>["A@x.com","a@x.com","B@y.com"]\<close> the result is \<open>["A@x.com","B@y.com"]\<close>; on every
  array the result keeps, in order, the first element of each lower-cased and trimmed
  form, as it was written, and drops the later ones.
\<close>

theorem dedupe_first_occurrence:
  "removeDuplicateEmails (Array [''A@x.com'', ''a@x.com'', ''B@y.com'']) =
     [''A@x.com'', ''B@y.com''] \<and>
   (\<forall>xs. removeDuplicateEmails (Array xs) = keep_first (\<lambda>e. trim (toLowerCase e)) xs)"
proof
  show "removeDuplicateEmails (Array [''A@x.com'', ''a@x.com'', ''B@y.com'']) =
          [''A@x.com'', ''B@y.com'']"
    by code_simp
next
  show "\<forall>xs. removeDuplicateEmails (Array xs) = keep_first (\<lambda>e. trim (toLowerCase e)) xs"
    by (simp add: filter_seen_keep_first)
qed

text \<open>C5: deduplicating a deduplicated array changes nothing.\<close>

theorem dedupe_idempotent:
  "removeDuplicateEmails (Array (removeDuplicateEmails (Array xs))) =
     removeDuplicateEmails (Array xs)"
  by (simp add: filter_seen_idem)

section \<open>The clipboard text\<close>

lemma set_add_old: "x \<in> set acc \<Longrightarrow> set_add acc x = acc"
  by (simp add: set_add_def set_has_def)

lemma set_add_new: "x \<notin> set acc \<Longrightarrow> set_add acc x = acc @ [x]"
  by (simp add: set_add_def set_has_def)

lemma foldl_set_add:
  "foldl set_add acc xs = acc @ keep_first (\<lambda>e. e) (filter (\<lambda>x. x \<notin> set acc) xs)"
proof (induction xs arbitrary: acc)
  case Nil
  then show ?case by simp
next
  case (Cons x xs)
  show ?case
  proof (cases "x \<in> set acc")
    case True
    then show ?thesis by (simp add: set_add_old Cons.IH)
  next
    case False
    have "filter (\<lambda>y. y \<notin> set (acc @ [x])) xs =
            filter (\<lambda>y. y \<noteq> x) (filter (\<lambda>y. y \<notin> set acc) xs)"
      by (auto intro: filter_cong)
    with False show ?thesis by (simp add: set_add_new Cons.IH)
  qed
qed

lemma new_Set_keep_first: "new_Set xs = keep_first (\<lambda>e. e) xs"
  by (simp add: new_Set_def foldl_set_add)

lemma set_keep_first: "set (keep_first (\<lambda>e. e) xs) = set xs"
proof (induction xs rule: length_induct)
  case (1 xs)
  show ?case
  proof (cases xs)
    case Nil
    then show ?thesis by simp
  next
    case (Cons x ys)
    have "length (filter (\<lambda>y. y \<noteq> x) ys) < length xs"
      using Cons by (simp add: le_imp_less_Suc)
    with 1 have "set (keep_first (\<lambda>e. e) (filter (\<lambda>y. y \<noteq> x) ys)) = set (filter (\<lambda>y. y \<noteq> x) ys)"
      by blast
    with Cons show ?thesis by auto
  qed
qed

lemma distinct_keep_first: "distinct (keep_first (\<lambda>e. e) xs)"
proof (induction xs rule: length_induct)
  case (1 xs)
  show ?case
  proof (cases xs)
    case Nil
    then show ?thesis by simp
  next
    case (Cons x ys)
    have "length (filter (\<lambda>y. y \<noteq> x) ys) < length xs"
      using Cons by (simp add: le_imp_less_Suc)
    with 1 have "distinct (keep_first (\<lambda>e. e) (filter (\<lambda>y. y \<noteq> x) ys))"
      by blast
    with Cons show ?thesis by (simp add: set_keep_first)
  qed
qed

lemma length_keep_first: "length (keep_first (\<lambda>e. e) xs) = card (set xs)"
  using distinct_card [OF distinct_keep_first, of xs] by (simp add: set_keep_first)

lemma length_keep_first_le: "length (keep_first (\<lambda>e. e) xs) \<le> length xs"
  by (simp add: length_keep_first card_length)

lemma length_keep_first_less: "\<not> distinct xs \<Longrightarrow> length (keep_first (\<lambda>e. e) xs) < length xs"
  using card_distinct [of xs] card_length [of xs] by (fastforce simp: length_keep_first)

lemma format_eq:
  "formatEmailsForClipboard (Array es) opts =
     (if es = [] then []
      else (if includeHeaders (spread_options DEFAULT_CLIPBOARD_OPTIONS opts)
            then ''Emails found ('' @ show_nat (length (keep_first (\<lambda>e. e) es)) @ ''):\<newline>''
            else []) @
           js_join (separator (spread_options DEFAULT_CLIPBOARD_OPTIONS opts))
             (keep_first (\<lambda>e. e) es))"
  by (simp add: formatEmailsForClipboard_def Let_def new_Set_keep_first)

lemma copy_ok:
  "success (fst (copyEmailsToClipboard env (Array es) opts)) \<Longrightarrow>
     es \<noteq> [] \<and>
     message (fst (copyEmailsToClipboard env (Array es) opts)) =
       show_nat (length es) @ '' email'' @ (if length es = 1 then [] else ''s'')
         @ '' copied to clipboard!'' \<and>
     snd (copyEmailsToClipboard env (Array es) opts) =
       Some (formatEmailsForClipboard (Array es) opts)"
  by (auto simp: copyEmailsToClipboard_def copyToClipboard_def copyToClipboardFallback_def Let_def
           split: if_splits option.splits prod.splits)

lemma split_loop_piece:
  "sep \<noteq> [] \<Longrightarrow> hd sep \<notin> set x \<Longrightarrow>
     split_loop sep piece (x @ sep @ rest) = (piece @ x) # split_loop sep [] rest"
proof (induction x arbitrary: piece)
  case Nil
  then obtain c cs where "sep = c # cs" by (cases sep) auto
  then show ?case by simp
next
  case (Cons a x)
  then obtain c cs where sep: "sep = c # cs" by (cases sep) auto
  with Cons.prems have "a \<noteq> c" by auto
  then have "take (length sep) (a # x @ sep @ rest) \<noteq> sep"
    using sep by auto
  with Cons show ?case by simp
qed

lemma split_loop_last:
  "sep \<noteq> [] \<Longrightarrow> hd sep \<notin> set x \<Longrightarrow> split_loop sep piece x = [piece @ x]"
proof (induction x arbitrary: piece)
  case Nil
  then show ?case by simp
next
  case (Cons a x)
  then obtain c cs where sep: "sep = c # cs" by (cases sep) auto
  with Cons.prems have "a \<noteq> c" by auto
  then have "take (length sep) (a # x) \<noteq> sep"
    using sep by auto
  with Cons show ?case by simp
qed

lemma split_loop_join:
  "sep \<noteq> [] \<Longrightarrow> xs \<noteq> [] \<Longrightarrow> (\<And>x. x \<in> set xs \<Longrightarrow> hd sep \<notin> set x) \<Longrightarrow>
     split_loop sep [] (js_join sep xs) = xs"
proof (induction sep xs rule: js_join.induct)
  case (1 sep)
  then show ?case by simp
next
  case (2 sep x)
  then show ?case by (simp add: split_loop_last)
next
  case (3 sep x y ys)
  have "split_loop sep [] (x @ sep @ js_join sep (y # ys)) = ([] @ x) # split_loop sep [] (js_join sep (y # ys))"
    by (rule split_loop_piece) (use 3 in auto)
  with 3 show ?case by simp
qed

text \<open>
  C6: the text is empty for an empty array; otherwise it is the header line
  \<open>Emails found (N):\<close> with a line break, when \<open>includeHeaders\<close> is set, followed by the
  retained emails joined with the separator.  The retained emails are the first
  occurrence of each literal string, so no string is there twice and none is lost, and \<open>N\<close>
  counts them.  With separator \<open>", "\<close> and the header, \<open>["a@x.com","b@y.com"]\<close> gives
  \<open>"Emails found (2):\na@x.com, b@y.com"\<close>.
\<close>

theorem format_for_clipboard:
  "formatEmailsForClipboard (Array es) opts =
     (if es = [] then []
      else (if includeHeaders (spread_options DEFAULT_CLIPBOARD_OPTIONS opts)
            then ''Emails found ('' @ show_nat (length (keep_first (\<lambda>e. e) es)) @ ''):\<newline>''
            else []) @
           js_join (separator (spread_options DEFAULT_CLIPBOARD_OPTIONS opts))
             (keep_first (\<lambda>e. e) es)) \<and>
   distinct (keep_first (\<lambda>e. e) es) \<and>
   set (keep_first (\<lambda>e. e) es) = set es \<and>
   formatEmailsForClipboard (Array [''a@x.com'', ''b@y.com''])
       \<lparr> separator_opt = Some '', '', includeHeaders_opt = Some True \<rparr> =
     ''Emails found (2):\<newline>a@x.com, b@y.com''"
proof -
  have "formatEmailsForClipboard (Array [''a@x.com'', ''b@y.com''])
            \<lparr> separator_opt = Some '', '', includeHeaders_opt = Some True \<rparr> =
          ''Emails found (2):\<newline>a@x.com, b@y.com''"
    by code_simp
  then show ?thesis
    using format_eq [of es opts] distinct_keep_first [of es] set_keep_first [of es]
    by blast
qed

theorem format_for_clipboard_witness:
  "formatEmailsForClipboard (Array [''a@x.com'', ''a@x.com'', ''b@y.com''])
       \<lparr> separator_opt = None, includeHeaders_opt = Some True \<rparr> =
     ''Emails found (2):\<newline>a@x.com,b@y.com''"
proof -
  have "keep_first (\<lambda>e. e) [''a@x.com'', ''a@x.com'', ''b@y.com''] = [''a@x.com'', ''b@y.com'']"
    by simp
  moreover have "show_nat (Suc (Suc 0)) = ''2''"
    by code_simp
  ultimately show ?thesis
    using format_for_clipboard [of "[''a@x.com'', ''a@x.com'', ''b@y.com'']"
            "\<lparr> separator_opt = None, includeHeaders_opt = Some True \<rparr>"]
    by (simp add: spread_options_def DEFAULT_CLIPBOARD_OPTIONS_def)
qed

text \<open>
  C10: whenever \<open>copyEmailsToClipboard\<close> reports success, its message counts the elements
  of the input array, while the text on the clipboard holds the first occurrence of each
  literal string only: never more entries than the message says, and fewer as soon as a
  string is repeated.
\<close>

theorem copy_message_counts_input:
  "success (fst (copyEmailsToClipboard env (Array es) opts)) \<Longrightarrow>
     es \<noteq> [] \<and>
     message (fst (copyEmailsToClipboard env (Array es) opts)) =
       show_nat (length es) @ '' email'' @ (if length es = 1 then [] else ''s'')
         @ '' copied to clipboard!'' \<and>
     snd (copyEmailsToClipboard env (Array es) opts) =
       Some (formatEmailsForClipboard (Array es) opts) \<and>
     formatEmailsForClipboard (Array es) opts =
       (if includeHeaders (spread_options DEFAULT_CLIPBOARD_OPTIONS opts)
        then ''Emails found ('' @ show_nat (length (new_Set es)) @ ''):\<newline>''
        else []) @
       js_join (separator (spread_options DEFAULT_CLIPBOARD_OPTIONS opts)) (new_Set es) \<and>
     length (new_Set es) \<le> length es \<and>
     (\<not> distinct es \<longrightarrow> length (new_Set es) < length es)"
proof -
  assume ok: "success (fst (copyEmailsToClipboard env (Array es) opts))"
  note c = copy_ok [OF ok]
  from c have "es \<noteq> []" by simp
  then have "formatEmailsForClipboard (Array es) opts =
       (if includeHeaders (spread_options DEFAULT_CLIPBOARD_OPTIONS opts)
        then ''Emails found ('' @ show_nat (length (new_Set es)) @ ''):\<newline>''
        else []) @
       js_join (separator (spread_options DEFAULT_CLIPBOARD_OPTIONS opts)) (new_Set es)"
    by (simp add: format_eq new_Set_keep_first)
  with c show ?thesis
    by (simp add: new_Set_keep_first length_keep_first_le length_keep_first_less)
qed

theorem copy_message_counts_input_witness:
  "success (fst (copyEmailsToClipboard clipboard_granted (Array [''a@x.com'', ''a@x.com''])
       \<lparr> separator_opt = None, includeHeaders_opt = None \<rparr>)) \<and>
   message (fst (copyEmailsToClipboard clipboard_granted (Array [''a@x.com'', ''a@x.com''])
       \<lparr> separator_opt = None, includeHeaders_opt = None \<rparr>)) = ''2 emails copied to clipboard!'' \<and>
   snd (copyEmailsToClipboard clipboard_granted (Array [''a@x.com'', ''a@x.com''])
       \<lparr> separator_opt = None, includeHeaders_opt = None \<rparr>) = Some ''a@x.com'' \<and>
   length (new_Set [''a@x.com'', ''a@x.com'']) < length [''a@x.com'', ''a@x.com'']"
proof -
  have ok: "success (fst (copyEmailsToClipboard clipboard_granted
              (Array [''a@x.com'', ''a@x.com''])
              \<lparr> separator_opt = None, includeHeaders_opt = None \<rparr>))"
    by code_simp
  have f: "formatEmailsForClipboard (Array [''a@x.com'', ''a@x.com''])
             \<lparr> separator_opt = None, includeHeaders_opt = None \<rparr> = ''a@x.com''"
    by code_simp
  have n: "show_nat (length [''a@x.com'', ''a@x.com'']) = ''2''"
    by code_simp
  from copy_message_counts_input [OF ok] ok f n show ?thesis
    by simp
qed

text \<open>
  C8, as stated: whenever the separator occurs in no email, splitting the clipboard text
  by it gives back the deduplicated emails.  With the header line switched on the first
  piece carries the header.
\<close>

theorem split_format_counterexample:
  "\<not> js_includes ''a@x.com'' '','' \<and>
   set (js_split (formatEmailsForClipboard (Array [''a@x.com''])
                    \<lparr> separator_opt = Some '','', includeHeaders_opt = Some True \<rparr>) '','')
     \<noteq> set (new_Set [''a@x.com''])"
  by code_simp

lemma split_format_overlap:
  "\<not> js_includes ''a'' ''aa'' \<and> \<not> js_includes ''b'' ''aa'' \<and>
   js_split (formatEmailsForClipboard (Array [''a'', ''b''])
               \<lparr> separator_opt = Some ''aa'', includeHeaders_opt = Some False \<rparr>) ''aa'' =
     [[], ''ab'']"
  by code_simp

lemma split_format_empty:
  "js_split (formatEmailsForClipboard (Array [])
               \<lparr> separator_opt = Some '','', includeHeaders_opt = Some False \<rparr>) '','' = [[]]"
  by code_simp

text \<open>
  C8, amended: without the header line, for a non-empty array and a non-empty separator
  whose first character is in no email, splitting the clipboard text by the separator
  gives back the deduplicated emails, in order.
\<close>

theorem split_format_round_trip:
  assumes "es \<noteq> []"
    and "\<not> includeHeaders (spread_options DEFAULT_CLIPBOARD_OPTIONS opts)"
    and "separator (spread_options DEFAULT_CLIPBOARD_OPTIONS opts) \<noteq> []"
    and "\<And>e. e \<in> set es \<Longrightarrow>
           hd (separator (spread_options DEFAULT_CLIPBOARD_OPTIONS opts)) \<notin> set e"
  shows "js_split (formatEmailsForClipboard (Array es) opts)
           (separator (spread_options DEFAULT_CLIPBOARD_OPTIONS opts)) = new_Set es \<and>
         set (js_split (formatEmailsForClipboard (Array es) opts)
           (separator (spread_options DEFAULT_CLIPBOARD_OPTIONS opts))) = set es"
proof -
  let ?sep = "separator (spread_options DEFAULT_CLIPBOARD_OPTIONS opts)"
  let ?u = "keep_first (\<lambda>e. e) es"
  from assms(1) have "set ?u \<noteq> {}" by (simp add: set_keep_first)
  then have u: "?u \<noteq> []" by auto
  have "split_loop ?sep [] (js_join ?sep ?u) = ?u"
    using assms(3) u
  proof (rule split_loop_join)
    fix x assume "x \<in> set ?u"
    then have "x \<in> set es" by (simp add: set_keep_first)
    then show "hd ?sep \<notin> set x" by (rule assms(4))
  qed
  with assms(1,2,3) have "js_split (formatEmailsForClipboard (Array es) opts) ?sep = ?u"
    by (simp add: format_eq js_split_def)
  then show ?thesis by (simp add: new_Set_keep_first set_keep_first)
qed

theorem split_format_round_trip_witness:
  "js_split (formatEmailsForClipboard (Array [''a@x.com'', ''b@y.com'', ''a@x.com''])
               \<lparr> separator_opt = Some '', '', includeHeaders_opt = None \<rparr>) '', '' =
     [''a@x.com'', ''b@y.com'']"
proof -
  let ?es = "[''a@x.com'', ''b@y.com'', ''a@x.com'']"
  let ?opts = "\<lparr> separator_opt = Some '', '', includeHeaders_opt = None \<rparr>"
  have sep: "separator (spread_options DEFAULT_CLIPBOARD_OPTIONS ?opts) = '', ''"
    by (simp add: spread_options_def)
  have "js_split (formatEmailsForClipboard (Array ?es) ?opts)
           (separator (spread_options DEFAULT_CLIPBOARD_OPTIONS ?opts)) = new_Set ?es \<and>
         set (js_split (formatEmailsForClipboard (Array ?es) ?opts)
           (separator (spread_options DEFAULT_CLIPBOARD_OPTIONS ?opts))) = set ?es"
  proof (rule split_format_round_trip)
    show "?es \<noteq> []" by simp
    show "\<not> includeHeaders (spread_options DEFAULT_CLIPBOARD_OPTIONS ?opts)"
      by (simp add: spread_options_def DEFAULT_CLIPBOARD_OPTIONS_def)
    show "separator (spread_options DEFAULT_CLIPBOARD_OPTIONS ?opts) \<noteq> []"
      by (simp add: sep)
    fix e assume "e \<in> set ?es"
    then show "hd (separator (spread_options DEFAULT_CLIPBOARD_OPTIONS ?opts)) \<notin> set e"
      by (auto simp: sep)
  qed
  moreover have "new_Set ?es = [''a@x.com'', ''b@y.com'']"
    by code_simp
  ultimately show ?thesis by (simp add: sep)
qed

section \<open>The strict pattern and the strict grammar\<close>

lemma first_some_None: "first_some f xs = None \<longleftrightarrow> (\<forall>x\<in>set xs. f x = None)"
  by (induction xs) (auto split: option.splits)

lemma first_some_not_None: "first_some f xs \<noteq> None \<longleftrightarrow> (\<exists>x\<in>set xs. f x \<noteq> None)"
  by (simp add: first_some_None)

lemma le_length_takeWhile:
  "k \<le> length (takeWhile P s) \<longleftrightarrow> k \<le> length s \<and> (\<forall>x\<in>set (take k s). P x)"
proof (induction s arbitrary: k)
  case Nil
  then show ?case by simp
next
  case (Cons a s)
  then show ?case by (cases k) auto
qed

lemma m_Rep_count:
  "m_atoms (Rep cls n # as) ic b s \<noteq> None \<longleftrightarrow>
     (\<exists>k. n \<le> k \<and> k \<le> length (takeWhile (class_matches ic cls) s) \<and>
          m_atoms as ic (b \<and> k = 0) (drop k s) \<noteq> None)"
proof -
  have "m_atoms (Rep cls n # as) ic b s =
          first_some (\<lambda>k. m_atoms as ic (b \<and> k = 0) (drop k s))
            (rev [n ..< Suc (length (takeWhile (class_matches ic cls) s))])"
    by simp
  then have "m_atoms (Rep cls n # as) ic b s \<noteq> None \<longleftrightarrow>
      (\<exists>k\<in>set (rev [n ..< Suc (length (takeWhile (class_matches ic cls) s))]).
          m_atoms as ic (b \<and> k = 0) (drop k s) \<noteq> None)"
    by (simp only: first_some_not_None)
  also have "\<dots> \<longleftrightarrow> (\<exists>k. n \<le> k \<and> k \<le> length (takeWhile (class_matches ic cls) s) \<and>
          m_atoms as ic (b \<and> k = 0) (drop k s) \<noteq> None)"
    by (simp only: set_rev set_upt atLeastLessThan_iff less_Suc_eq_le Bex_def conj_assoc)
  finally show ?thesis .
qed

lemma m_Rep:
  "m_atoms (Rep cls n # as) ic b s \<noteq> None \<longleftrightarrow>
     (\<exists>p q. s = p @ q \<and> n \<le> length p \<and> (\<forall>x\<in>set p. class_matches ic cls x) \<and>
            m_atoms as ic (b \<and> p = []) q \<noteq> None)"
  (is "?L \<longleftrightarrow> ?R")
proof
  assume ?L
  then obtain k where k: "n \<le> k" "k \<le> length (takeWhile (class_matches ic cls) s)"
    and m: "m_atoms as ic (b \<and> k = 0) (drop k s) \<noteq> None"
    unfolding m_Rep_count by blast
  from k(2) have kl: "k \<le> length s" and all: "\<forall>x\<in>set (take k s). class_matches ic cls x"
    by (simp_all add: le_length_takeWhile)
  from kl have "take k s = [] \<longleftrightarrow> k = 0" by auto
  with k(1) kl all m have "s = take k s @ drop k s \<and> n \<le> length (take k s) \<and>
      (\<forall>x\<in>set (take k s). class_matches ic cls x) \<and>
      m_atoms as ic (b \<and> take k s = []) (drop k s) \<noteq> None"
    by simp
  then show ?R by blast
next
  assume ?R
  then obtain p q where s: "s = p @ q" and n: "n \<le> length p"
    and all: "\<forall>x\<in>set p. class_matches ic cls x"
    and m: "m_atoms as ic (b \<and> p = []) q \<noteq> None"
    by blast
  have "length p \<le> length (takeWhile (class_matches ic cls) s)"
    using s all by (simp add: le_length_takeWhile)
  moreover from m s have "m_atoms as ic (b \<and> length p = 0) (drop (length p) s) \<noteq> None"
    by simp
  ultimately show ?L
    unfolding m_Rep_count using n by blast
qed

lemma m_Lit:
  "m_atoms (Lit c # as) False b s \<noteq> None \<longleftrightarrow>
     (\<exists>xs. s = c # xs \<and> m_atoms as False False xs \<noteq> None)"
  by (cases s) (auto simp: canonicalize_def)

lemma m_Eol:
  "m_atoms (Eol # as) ic b s \<noteq> None \<longleftrightarrow> s = [] \<and> m_atoms as ic b [] \<noteq> None"
  by auto

lemma m_Bol:
  "m_atoms (Bol # as) ic b s \<noteq> None \<longleftrightarrow> b \<and> m_atoms as ic b s \<noteq> None"
  by auto

lemma m_Nil: "m_atoms [] ic b s \<noteq> None"
  by simp

lemma strict_atoms:
  "m_atoms (atoms STRICT_EMAIL_REGEX) False b s \<noteq> None \<longleftrightarrow>
     b \<and> (\<exists>l d t. s = l @ CHR ''@'' # d @ CHR ''.'' # t \<and>
            1 \<le> length l \<and> (\<forall>x\<in>set l. in_class localClass x) \<and>
            1 \<le> length d \<and> (\<forall>x\<in>set d. in_class domainClass x) \<and>
            2 \<le> length t \<and> (\<forall>x\<in>set t. in_class alphaClass x))"
  unfolding STRICT_EMAIL_REGEX_def regex.simps
  apply (simp only: m_Rep m_Lit m_Eol m_Bol m_Nil class_matches_def)
  apply (rule iffI)
   apply (elim conjE exE)
  subgoal for p q xs p2 q2 ys p3 q3
    by (rule conjI, assumption) (rule exI [of _ p], rule exI [of _ p2], rule exI [of _ p3], simp)
  apply (elim conjE exE)
  subgoal for l d t
    apply (rule conjI, assumption)
    apply (rule exI [of _ l], rule exI [of _ "CHR ''@'' # d @ CHR ''.'' # t"])
    apply (simp)
    apply (rule exI [of _ d], rule exI [of _ "CHR ''.'' # t"])
    apply simp
    done
  done


lemma exec_from_Bol:
  "atoms r = Bol # as \<Longrightarrow> 0 < i \<Longrightarrow> exec_from r inp i = None"
proof (induction r inp i rule: exec_from.induct)
  case (1 r inp i)
  show ?case
  proof (cases "length inp < i")
    case True
    then show ?thesis by (simp add: exec_from.simps)
  next
    case False
    from "1.prems" have none: "m_atoms (atoms r) (ignoreCase r) (i = 0) (drop i inp) = None"
      by simp
    from "1.IH" [OF False none "1.prems"(1)] have "exec_from r inp (Suc i) = None"
      by simp
    with False none show ?thesis by (simp add: exec_from.simps [of r inp i])
  qed
qed

lemma regex_test_strict:
  "regex_test STRICT_EMAIL_REGEX s \<longleftrightarrow>
     m_atoms (atoms STRICT_EMAIL_REGEX) False True s \<noteq> None"
proof -
  have a: "atoms STRICT_EMAIL_REGEX =
      Bol # [Rep localClass 1, Lit CHR ''@'', Rep domainClass 1, Lit CHR ''.'', Rep alphaClass 2, Eol]"
    by (simp add: STRICT_EMAIL_REGEX_def)
  have ic: "ignoreCase STRICT_EMAIL_REGEX = False"
    by (simp add: STRICT_EMAIL_REGEX_def)
  have "exec_from STRICT_EMAIL_REGEX s (Suc 0) = None"
    by (rule exec_from_Bol [OF a]) simp
  then show ?thesis
    unfolding regex_test_def
    by (subst exec_from.simps) (simp add: ic split: option.splits)
qed

lemma in_localClass: "in_class localClass c = isLocalChar c"
  by (auto simp: in_class_def localClass_def isLocalChar_def isLetter_def isDigit_def Let_def)

lemma in_domainClass: "in_class domainClass c = isDomainChar c"
  by (auto simp: in_class_def domainClass_def isDomainChar_def isLetter_def isDigit_def Let_def)

lemma in_alphaClass: "in_class alphaClass c = isLetter c"
  by (auto simp: in_class_def alphaClass_def isLetter_def Let_def)


lemma takeWhile_upto: "c \<notin> set l \<Longrightarrow> takeWhile (\<lambda>x. x \<noteq> c) (l @ c # r) = l"
  by (induction l) auto

lemma split_first:
  assumes "c \<in> set s"
  shows "s = takeWhile (\<lambda>x. x \<noteq> c) s @ c # drop (Suc (length (takeWhile (\<lambda>x. x \<noteq> c) s))) s"
proof -
  let ?P = "\<lambda>x. x \<noteq> c"
  from assms have ne: "dropWhile ?P s \<noteq> []" by (auto simp: dropWhile_eq_Nil_conv)
  then have "\<not> ?P (hd (dropWhile ?P s))" by (rule hd_dropWhile)
  with ne have "dropWhile ?P s = c # tl (dropWhile ?P s)"
    by (cases "dropWhile ?P s") auto
  moreover have "tl (dropWhile ?P s) = drop (Suc (length (takeWhile ?P s))) s"
    by (simp add: dropWhile_eq_drop drop_Suc tl_drop)
  ultimately have "dropWhile ?P s = c # drop (Suc (length (takeWhile ?P s))) s" by simp
  with takeWhile_dropWhile_id [of ?P s] show ?thesis by simp
qed

lemma split_last:
  assumes "c \<in> set s"
  shows "s = take (length s - Suc (length (takeWhile (\<lambda>x. x \<noteq> c) (rev s)))) s
             @ c # rev (takeWhile (\<lambda>x. x \<noteq> c) (rev s))"
proof -
  let ?tw = "takeWhile (\<lambda>x. x \<noteq> c) (rev s)"
  let ?dr = "drop (Suc (length ?tw)) (rev s)"
  from assms have "c \<in> set (rev s)" by simp
  from split_first [OF this] have r: "rev s = ?tw @ c # ?dr" .
  then have "rev (rev s) = rev (?tw @ c # ?dr)" by simp
  then have s: "s = rev ?dr @ c # rev ?tw" by simp
  then have "length s = length (rev ?dr) + Suc (length ?tw)"
    by (metis length_append length_Cons length_rev)
  then have "length s - Suc (length ?tw) = length (rev ?dr)" by simp
  moreover have "take (length (rev ?dr)) s = rev ?dr"
    by (subst s) simp
  ultimately have "take (length s - Suc (length ?tw)) s = rev ?dr" by simp
  with s show ?thesis by simp
qed

lemma not_local_at: "\<not> isLocalChar CHR ''@''"
  by (simp add: isLocalChar_def isLetter_def isDigit_def)

lemma not_domain_at: "\<not> isDomainChar CHR ''@''"
  by (simp add: isDomainChar_def isLetter_def isDigit_def)

lemma not_letter_at: "\<not> isLetter CHR ''@''"
  by (simp add: isLetter_def)

lemma not_letter_dot: "\<not> isLetter CHR ''.''"
  by (simp add: isLetter_def)

lemma domain_dot: "isDomainChar CHR ''.''"
  by (simp add: isDomainChar_def)

lemma letter_domain: "isLetter c \<Longrightarrow> isDomainChar c"
  by (simp add: isDomainChar_def)

lemma strict_grammar_built:
  assumes l: "l \<noteq> []" "\<forall>x\<in>set l. isLocalChar x"
    and d: "d \<noteq> []" "\<forall>x\<in>set d. isDomainChar x"
    and t: "2 \<le> length t" "\<forall>x\<in>set t. isLetter x"
  shows "strict_grammar (l @ CHR ''@'' # d @ CHR ''.'' # t)"
proof -
  let ?s = "l @ CHR ''@'' # d @ CHR ''.'' # t"
  from l(2) have al: "CHR ''@'' \<notin> set l" using not_local_at by blast
  from d(2) have ad: "CHR ''@'' \<notin> set d" using not_domain_at by blast
  from t(2) have at: "CHR ''@'' \<notin> set t" using not_letter_at by blast
  from t(2) have dt: "CHR ''.'' \<notin> set t" using not_letter_dot by blast
  have loc: "takeWhile (\<lambda>c. c \<noteq> CHR ''@'') ?s = l"
    using al by (rule takeWhile_upto)
  have dom: "drop (Suc (length l)) ?s = d @ CHR ''.'' # t" by simp
  have "takeWhile (\<lambda>c. c \<noteq> CHR ''.'') (rev t @ CHR ''.'' # rev d) = rev t"
    by (rule takeWhile_upto) (use dt in simp)
  then have lab: "rev (takeWhile (\<lambda>c. c \<noteq> CHR ''.'') (rev (d @ CHR ''.'' # t))) = t"
    by simp
  have host: "take (length (d @ CHR ''.'' # t) - Suc (length t)) (d @ CHR ''.'' # t) = d"
    by simp
  have cnt: "count_list ?s CHR ''@'' = 1"
    using al ad at by (simp add: count_list_0_iff)
  have alld: "list_all isDomainChar (d @ CHR ''.'' # t)"
    using d(2) t(2) by (auto simp: list_all_iff domain_dot letter_domain)
  show ?thesis
    unfolding strict_grammar_def Let_def loc dom lab host
    using cnt l d t alld by (simp add: list_all_iff)
qed

lemma strict_grammar_parts:
  assumes "strict_grammar s"
  shows "\<exists>l d t. s = l @ CHR ''@'' # d @ CHR ''.'' # t \<and>
            1 \<le> length l \<and> (\<forall>x\<in>set l. isLocalChar x) \<and>
            1 \<le> length d \<and> (\<forall>x\<in>set d. isDomainChar x) \<and>
            2 \<le> length t \<and> (\<forall>x\<in>set t. isLetter x)"
proof -
  let ?local = "takeWhile (\<lambda>c. c \<noteq> CHR ''@'') s"
  let ?domain = "drop (Suc (length ?local)) s"
  let ?label = "rev (takeWhile (\<lambda>c. c \<noteq> CHR ''.'') (rev ?domain))"
  let ?host = "take (length ?domain - Suc (length ?label)) ?domain"
  have cnt: "count_list s CHR ''@'' = 1"
    and loc: "?local \<noteq> []" "list_all isLocalChar ?local"
    and dom: "list_all isDomainChar ?domain" "CHR ''.'' \<in> set ?domain"
    and host: "?host \<noteq> []"
    and lab: "2 \<le> length ?label" "list_all isLetter ?label"
    using assms unfolding strict_grammar_def Let_def by blast+
  from cnt have "CHR ''@'' \<in> set s"
    by (metis count_list_0_iff zero_neq_one)
  from split_first [OF this] have s: "s = ?local @ CHR ''@'' # ?domain" .
  from split_last [OF dom(2)] have d: "?domain = ?host @ CHR ''.'' # ?label"
    by simp
  have "set ?host \<subseteq> set ?domain" by (rule set_take_subset)
  with dom(1) have hd: "\<forall>x\<in>set ?host. isDomainChar x" by (auto simp: list_all_iff)
  from s d have eq: "s = ?local @ CHR ''@'' # ?host @ CHR ''.'' # ?label" by simp
  from loc(1) have l1: "1 \<le> length ?local" by (cases ?local) auto
  from host have h1: "1 \<le> length ?host" by (cases ?host) auto
  from loc(2) have la: "\<forall>x\<in>set ?local. isLocalChar x" by (simp only: list_all_iff)
  from lab(2) have ta: "\<forall>x\<in>set ?label. isLetter x" by (simp only: list_all_iff)
  from eq l1 la h1 hd lab(1) ta
  have "s = ?local @ CHR ''@'' # ?host @ CHR ''.'' # ?label \<and>
        1 \<le> length ?local \<and> (\<forall>x\<in>set ?local. isLocalChar x) \<and>
        1 \<le> length ?host \<and> (\<forall>x\<in>set ?host. isDomainChar x) \<and>
        2 \<le> length ?label \<and> (\<forall>x\<in>set ?label. isLetter x)"
    by (intro conjI)
  then show ?thesis by (intro exI)
qed

lemma strict_grammar_iff:
  "strict_grammar s \<longleftrightarrow>
     (\<exists>l d t. s = l @ CHR ''@'' # d @ CHR ''.'' # t \<and>
            1 \<le> length l \<and> (\<forall>x\<in>set l. isLocalChar x) \<and>
            1 \<le> length d \<and> (\<forall>x\<in>set d. isDomainChar x) \<and>
            2 \<le> length t \<and> (\<forall>x\<in>set t. isLetter x))"
proof
  assume "strict_grammar s"
  then show "\<exists>l d t. s = l @ CHR ''@'' # d @ CHR ''.'' # t \<and>
            1 \<le> length l \<and> (\<forall>x\<in>set l. isLocalChar x) \<and>
            1 \<le> length d \<and> (\<forall>x\<in>set d. isDomainChar x) \<and>
            2 \<le> length t \<and> (\<forall>x\<in>set t. isLetter x)"
    by (rule strict_grammar_parts)
next
  assume "\<exists>l d t. s = l @ CHR ''@'' # d @ CHR ''.'' # t \<and>
            1 \<le> length l \<and> (\<forall>x\<in>set l. isLocalChar x) \<and>
            1 \<le> length d \<and> (\<forall>x\<in>set d. isDomainChar x) \<and>
            2 \<le> length t \<and> (\<forall>x\<in>set t. isLetter x)"
  then obtain l d t where s: "s = l @ CHR ''@'' # d @ CHR ''.'' # t"
    and "1 \<le> length l" "\<forall>x\<in>set l. isLocalChar x"
      "1 \<le> length d" "\<forall>x\<in>set d. isDomainChar x"
      "2 \<le> length t" "\<forall>x\<in>set t. isLetter x"
    by blast
  then have "strict_grammar (l @ CHR ''@'' # d @ CHR ''.'' # t)"
    by (intro strict_grammar_built) auto
  with s show "strict_grammar s" by simp
qed

lemma regex_test_strict_grammar: "regex_test STRICT_EMAIL_REGEX s = strict_grammar s"
  by (simp only: regex_test_strict strict_atoms strict_grammar_iff
        in_localClass in_domainClass in_alphaClass simp_thms)

lemma strict_grammar_Nil: "\<not> strict_grammar []"
  by (simp add: strict_grammar_def)

lemma trim_Nil: "trim [] = []"
  by (simp add: trim_def)

lemma isValidEmail_grammar: "isValidEmail (JString s) = strict_grammar (trim s)"
  by (cases "s = []")
     (simp_all add: isValidEmail_def regex_test_strict_grammar trim_Nil strict_grammar_Nil)

lemma char_is: "c = d \<longleftrightarrow> (of_char c :: nat) = of_char d"
  by simp

lemma isWhiteSpace_nat:
  "isWhiteSpace c \<longleftrightarrow> (of_char c :: nat) \<in> {9, 10, 11, 12, 13, 32, 160}"
  unfolding isWhiteSpace_def by (simp add: char_is [of c] del: of_char_eq_iff)

lemma local_nat:
  "isLocalChar c \<longleftrightarrow> isLetter c \<or> isDigit c \<or> (of_char c :: nat) \<in> {46, 95, 37, 43, 45}"
  unfolding isLocalChar_def by (simp add: char_is [of c] del: of_char_eq_iff)

lemma domain_nat:
  "isDomainChar c \<longleftrightarrow> isLetter c \<or> isDigit c \<or> (of_char c :: nat) \<in> {46, 45}"
  unfolding isDomainChar_def by (simp add: char_is [of c] del: of_char_eq_iff)


lemma letter_not_space: "isLetter c \<Longrightarrow> \<not> isWhiteSpace c"
  unfolding isWhiteSpace_nat isLetter_def Let_def by auto

lemma local_not_space: "isLocalChar c \<Longrightarrow> \<not> isWhiteSpace c"
  unfolding isWhiteSpace_nat local_nat isLetter_def isDigit_def Let_def by auto

lemma of_char_asciiUpper:
  "(of_char (asciiUpper c) :: nat) =
     (if 97 \<le> (of_char c :: nat) \<and> (of_char c :: nat) \<le> 122 then of_char c - 32 else of_char c)"
  by (auto simp: asciiUpper_def Let_def)

lemma of_char_asciiLower:
  "(of_char (asciiLower c) :: nat) =
     (if 65 \<le> (of_char c :: nat) \<and> (of_char c :: nat) \<le> 90 then of_char c + 32 else of_char c)"
  by (auto simp: asciiLower_def Let_def)


lemma upper_facts:
  "asciiUpper c = CHR ''@'' \<longleftrightarrow> c = CHR ''@''"
  "asciiUpper c = CHR ''.'' \<longleftrightarrow> c = CHR ''.''"
  "isLetter (asciiUpper c) = isLetter c"
  "isLocalChar (asciiUpper c) = isLocalChar c"
  "isDomainChar (asciiUpper c) = isDomainChar c"
  "isWhiteSpace (asciiUpper c) = isWhiteSpace c"
  unfolding char_is [of _ "CHR ''@''"] char_is [of _ "CHR ''.''"]
    isWhiteSpace_nat local_nat domain_nat isLetter_def isDigit_def Let_def of_char_asciiUpper
  by auto

lemma lower_facts:
  "asciiLower c = CHR ''@'' \<longleftrightarrow> c = CHR ''@''"
  "asciiLower c = CHR ''.'' \<longleftrightarrow> c = CHR ''.''"
  "isLetter (asciiLower c) = isLetter c"
  "isLocalChar (asciiLower c) = isLocalChar c"
  "isDomainChar (asciiLower c) = isDomainChar c"
  "isWhiteSpace (asciiLower c) = isWhiteSpace c"
  unfolding char_is [of _ "CHR ''@''"] char_is [of _ "CHR ''.''"]
    isWhiteSpace_nat local_nat domain_nat isLetter_def isDigit_def Let_def of_char_asciiLower
  by auto


lemma trim_id:
  assumes "s \<noteq> []" "\<not> isWhiteSpace (hd s)" "\<not> isWhiteSpace (last s)"
  shows "trim s = s"
proof -
  from assms(1,2) have a: "dropWhile isWhiteSpace s = s" by (cases s) auto
  from assms(1,3) have "\<not> isWhiteSpace (hd (rev s))" by (simp add: hd_rev)
  with assms(1) have "dropWhile isWhiteSpace (rev s) = rev s" by (cases "rev s") auto
  with a show ?thesis by (simp add: trim_def)
qed

lemma count_list_map_fixed:
  "(\<And>c. f c = a \<longleftrightarrow> c = a) \<Longrightarrow> count_list (map f s) a = count_list s a"
  by (induction s) auto
lemma strict_grammar_map:
  assumes at: "\<And>c. f c = CHR ''@'' \<longleftrightarrow> c = CHR ''@''"
    and dot: "\<And>c. f c = CHR ''.'' \<longleftrightarrow> c = CHR ''.''"
    and le: "\<And>c. isLetter (f c) = isLetter c"
    and lo: "\<And>c. isLocalChar (f c) = isLocalChar c"
    and dm: "\<And>c. isDomainChar (f c) = isDomainChar c"
  shows "strict_grammar (map f s) = strict_grammar s"
proof -
  let ?local = "takeWhile (\<lambda>c. c \<noteq> CHR ''@'') s"
  let ?domain = "drop (Suc (length ?local)) s"
  let ?label = "rev (takeWhile (\<lambda>c. c \<noteq> CHR ''.'') (rev ?domain))"
  let ?host = "take (length ?domain - Suc (length ?label)) ?domain"
  have tw_at: "takeWhile (\<lambda>c. c \<noteq> CHR ''@'') (map f xs) = map f (takeWhile (\<lambda>c. c \<noteq> CHR ''@'') xs)" for xs
    by (simp add: takeWhile_map comp_def at)
  have tw_dot: "takeWhile (\<lambda>c. c \<noteq> CHR ''.'') (map f xs) = map f (takeWhile (\<lambda>c. c \<noteq> CHR ''.'') xs)" for xs
    by (simp add: takeWhile_map comp_def dot)
  have dot': "(CHR ''.'' = f c) = (CHR ''.'' = c)" for c
    by (simp only: eq_commute [of "CHR ''.''"] dot)
  have dotin: "CHR ''.'' \<in> set (map f xs) \<longleftrightarrow> CHR ''.'' \<in> set xs" for xs
    by (induction xs) (simp_all add: dot')
  have local: "takeWhile (\<lambda>c. c \<noteq> CHR ''@'') (map f s) = map f ?local"
    by (rule tw_at)
  have domain: "drop (Suc (length (map f ?local))) (map f s) = map f ?domain"
    by (simp add: drop_map)
  have label: "rev (takeWhile (\<lambda>c. c \<noteq> CHR ''.'') (rev (map f ?domain))) = map f ?label"
    by (simp add: rev_map tw_dot)
  have host: "take (length (map f ?domain) - Suc (length (map f ?label))) (map f ?domain) = map f ?host"
    by (simp add: take_map)
  have all: "list_all P (map f xs) = list_all (\<lambda>c. P (f c)) xs" for P xs
    by (simp add: list_all_iff)
  show ?thesis
    unfolding strict_grammar_def Let_def local domain label host
    by (simp only: count_list_map_fixed [of f, OF at] map_is_Nil_conv all le lo dm dotin length_map)
qed

lemma trim_map:
  assumes "\<And>c. isWhiteSpace (f c) = isWhiteSpace c"
  shows "trim (map f s) = map f (trim s)"
proof -
  have "dropWhile isWhiteSpace (map f xs) = map f (dropWhile isWhiteSpace xs)" for xs
    by (simp add: dropWhile_map comp_def assms)
  then show ?thesis
    by (simp add: trim_def rev_map)
qed


lemma isValidEmail_built:
  assumes l: "l \<noteq> []" "\<forall>x\<in>set l. isLocalChar x"
    and d: "d \<noteq> []" "\<forall>x\<in>set d. isDomainChar x"
    and t: "2 \<le> length t" "\<forall>x\<in>set t. isLetter x"
  shows "isValidEmail (JString (l @ ''@'' @ d @ ''.'' @ t))"
proof -
  let ?s = "l @ CHR ''@'' # d @ CHR ''.'' # t"
  from t(1) have tn: "t \<noteq> []" by auto
  from l have "isLocalChar (hd l)" by (cases l) auto
  then have "\<not> isWhiteSpace (hd l)" by (rule local_not_space)
  with l(1) have h: "\<not> isWhiteSpace (hd ?s)" by simp
  from tn t(2) have "isLetter (last t)" by simp
  then have "\<not> isWhiteSpace (last t)" by (rule letter_not_space)
  with tn have e: "\<not> isWhiteSpace (last ?s)" by simp
  have "?s \<noteq> []" by simp
  then have "trim ?s = ?s" using h e by (rule trim_id)
  moreover have "strict_grammar ?s" using assms by (rule strict_grammar_built)
  ultimately show ?thesis by (simp add: isValidEmail_grammar)
qed

text \<open>
  C2, as stated: every string outside the strict grammar is rejected.  A string with white
  space around an address is outside the grammar and is accepted, because \<open>isValidEmail\<close>
  trims its argument before the test.
\<close>

theorem valid_email_untrimmed_counterexample:
  "\<not> strict_grammar '' a@b.co'' \<and> isValidEmail (JString '' a@b.co'')"
  by code_simp

text \<open>
  C2, amended: \<open>isValidEmail\<close> accepts a string exactly when the string, once trimmed,
  satisfies the strict grammar; and every string \<open>local@domain.tld\<close> with a non-empty local
  part of local characters, a non-empty domain of domain characters and a \<open>tld\<close> of two or
  more letters is accepted.
\<close>

theorem valid_email_strict_grammar:
  "(isValidEmail (JString s) \<longleftrightarrow> strict_grammar (trim s)) \<and>
   (local \<noteq> [] \<and> list_all isLocalChar local \<and>
    domain \<noteq> [] \<and> list_all isDomainChar domain \<and>
    2 \<le> length tld \<and> list_all isLetter tld \<longrightarrow>
      isValidEmail (JString (local @ ''@'' @ domain @ ''.'' @ tld)))"
proof (intro conjI impI)
  show "isValidEmail (JString s) \<longleftrightarrow> strict_grammar (trim s)"
    by (rule isValidEmail_grammar)
next
  assume "local \<noteq> [] \<and> list_all isLocalChar local \<and>
    domain \<noteq> [] \<and> list_all isDomainChar domain \<and>
    2 \<le> length tld \<and> list_all isLetter tld"
  then show "isValidEmail (JString (local @ ''@'' @ domain @ ''.'' @ tld))"
    by (intro isValidEmail_built) (simp_all add: list_all_iff)
qed

theorem valid_email_strict_grammar_witness:
  "strict_grammar (trim '' a@b.co '') \<and> isValidEmail (JString '' a@b.co '') \<and>
   list_all isLocalChar ''jane.doe'' \<and> list_all isDomainChar ''sub.example'' \<and>
   list_all isLetter ''org'' \<and>
   isValidEmail (JString (''jane.doe'' @ ''@'' @ ''sub.example'' @ ''.'' @ ''org''))"
proof -
  have g: "strict_grammar (trim '' a@b.co '')" by code_simp
  have l: "list_all isLocalChar ''jane.doe''" by code_simp
  have d: "list_all isDomainChar ''sub.example''" by code_simp
  have t: "list_all isLetter ''org''" by code_simp
  from valid_email_strict_grammar [of "'' a@b.co ''" "''jane.doe''" "''sub.example''" "''org''"]
    g l d t
  show ?thesis by simp
qed

text \<open>
  C9, as stated: a string with upper-case letters is rejected by \<open>isValidEmail\<close>.  The
  mixed-case address is accepted, although it is not its own lower-cased form.
\<close>

theorem valid_email_mixed_case_counterexample:
  "isValidEmail (JString ''Jane@Example.com'') \<and>
   toLowerCase ''Jane@Example.com'' \<noteq> ''Jane@Example.com''"
  by code_simp

text \<open>
  C9, amended: the letter classes of the strict pattern hold both cases, so the verdict of
  \<open>isValidEmail\<close> does not depend on the case of the ASCII letters of its argument: a
  string, its upper-cased form and its lower-cased form are accepted or rejected together.
\<close>

theorem valid_email_any_case:
  "isValidEmail (JString (map asciiUpper s)) = isValidEmail (JString s) \<and>
   isValidEmail (JString (map asciiLower s)) = isValidEmail (JString s)"
  by (simp add: isValidEmail_grammar trim_map upper_facts lower_facts strict_grammar_map)

theorem valid_email_any_case_witness:
  "map asciiUpper ''jane@example.com'' = ''JANE@EXAMPLE.COM'' \<and>
   isValidEmail (JString ''jane@example.com'') \<and>
   isValidEmail (JString ''JANE@EXAMPLE.COM'')"
proof -
  have u: "map asciiUpper ''jane@example.com'' = ''JANE@EXAMPLE.COM''" by code_simp
  have v: "isValidEmail (JString ''jane@example.com'')" by code_simp
  from valid_email_any_case [of "''jane@example.com''"] u v show ?thesis by simp
qed

end
